theory Spec2Isabelle
  imports Main "HOL-Library.AList"
begin

section \<open>JavaScript values\<close>

text \<open>
  The values that flow through \<^verbatim>\<open>RouterOutlet\<close> unchanged (paths, flags, redirect
  targets, component references, prop values). Functions and components are opaque
  references \<open>JFun\<close>; an object is its list of own properties in insertion order.
\<close>

datatype jsval =
    JUndefined
  | JNull
  | JBool bool
  | JNum int
  | JStr string
  | JArr "jsval list"
  | JObj "(string \<times> jsval) list"
  | JFun nat

text \<open>What \<^verbatim>\<open>v ? a : b\<close>, \<^verbatim>\<open>v && a\<close> and \<^verbatim>\<open>v || a\<close> test.\<close>

fun truthy :: "jsval \<Rightarrow> bool" where
  "truthy JUndefined = False"
| "truthy JNull = False"
| "truthy (JBool b) = b"
| "truthy (JNum n) = (n \<noteq> 0)"
| "truthy (JStr s) = (s \<noteq> [])"
| "truthy (JArr _) = True"
| "truthy (JObj _) = True"
| "truthy (JFun _) = True"

type_synonym props = "(string \<times> jsval) list"

section \<open>Route descriptors\<close>

text \<open>
  A guard is the function \<^verbatim>\<open>canEnter(props) -> boolean\<close>. It is consumer code: it may read
  and write the ambient mutable state of the application (the world \<open>'w\<close>, of which the
  Store is a part), so it takes the world and returns the new one with its verdict. The
  verdict is a boolean, as the interface says; a guard that throws is outside it.
\<close>

type_synonym 'w guard = "props \<Rightarrow> 'w \<Rightarrow> bool \<times> 'w"

text \<open>
  One entry of the \<^verbatim>\<open>routes\<close> array, with the fields of \<^verbatim>\<open>routePropType\<close> and the
  nested \<^verbatim>\<open>routes\<close> that the component is handed. A field that the descriptor leaves
  out reads as \<open>JUndefined\<close>; \<^verbatim>\<open>canEnter\<close> is a function (always truthy) or absent.
\<close>

record 'w route =
  path :: jsval
  exact :: jsval
  strict :: jsval
  component :: jsval
  canEnter :: "'w guard option"
  fallback :: jsval
  redirectTo :: jsval
  push :: jsval
  routes :: jsval

section \<open>The element tree\<close>

text \<open>
  \<^item> \<open>Redirect key from exact strict to push\<close>
  \<^item> \<open>Route key path exact strict render\<close>
  \<^item> \<open>Switch children\<close>
  \<^item> \<open>Suspense fallback child\<close>
  \<^item> \<open>Component type props\<close>: an element of the route's component
  \<^item> \<open>Node v\<close>: a value of the caller's used as a node (the placeholder)
  \<^item> \<open>Div\<close>: the empty \<^verbatim>\<open><div />\<close>
\<close>

datatype element =
    Redirect nat jsval jsval jsval jsval jsval
  | Route nat jsval jsval jsval "props \<Rightarrow> element"
  | Switch "element list"
  | Suspense element element
  | Component jsval props
  | Node jsval
  | Div

section \<open>RouterOutlet\<close>

text \<open>
  The \<^verbatim>\<open>render\<close> prop of a component route (lines 32 to 40). React is not part of the
  repository, so what its import gives is a parameter: \<open>sus\<close> says whether the
  \<^verbatim>\<open>Suspense\<close> imported from react is defined, which the code tests. \<open>rprops\<close> are the
  render props that the \<^verbatim>\<open>Route\<close> supplies. The spread
  \<^verbatim>\<open>{...props, routes: route.routes}\<close> sets the key \<^verbatim>\<open>routes\<close> in place when the render
  props have it and appends it otherwise.
\<close>

definition render :: "bool \<Rightarrow> jsval \<Rightarrow> 'w route \<Rightarrow> props \<Rightarrow> element" where
  "render sus placeholder r rprops =
     (if sus
      then Suspense (if truthy placeholder then Node placeholder else Div)
             (Component (component r) (AList.update ''routes'' (routes r) rprops))
      else Component (component r) (AList.update ''routes'' (routes r) rprops))"

text \<open>
  The callback of \<^verbatim>\<open>routes.map\<close> (lines 7 to 43) at one route and its index. It returns
  the child element, the guard calls it made (each with the route's index and the
  argument passed), and the world after them.
\<close>

definition outlet_child ::
  "bool \<Rightarrow> jsval \<Rightarrow> props \<Rightarrow> 'w route \<Rightarrow> nat \<Rightarrow> 'w \<Rightarrow> element \<times> (nat \<times> props) list \<times> 'w" where
  "outlet_child sus placeholder ps r index w =
     (if truthy (redirectTo r)
      then (Redirect index (path r) (exact r) (strict r) (redirectTo r) (push r), [], w)
      else
        (case canEnter r of
           None \<Rightarrow> (Route index (path r) (exact r) (strict r) (render sus placeholder r), [], w)
         | Some g \<Rightarrow>
             (let (ok, w') = g ps w
              in if \<not> ok
                 then (Redirect index (path r) (exact r) (strict r) (fallback r) (push r),
                       [(index, ps)], w')
                 else (Route index (path r) (exact r) (strict r) (render sus placeholder r),
                       [(index, ps)], w'))))"

text \<open>\<^verbatim>\<open>routes.map((route, index) => ...)\<close>: left to right, from index \<open>k\<close>.\<close>

fun map_routes ::
  "bool \<Rightarrow> jsval \<Rightarrow> props \<Rightarrow> nat \<Rightarrow> 'w route list \<Rightarrow> 'w \<Rightarrow> element list \<times> (nat \<times> props) list \<times> 'w" where
  "map_routes sus placeholder ps k [] w = ([], [], w)"
| "map_routes sus placeholder ps k (r # rs) w =
     (let (e, c, w1) = outlet_child sus placeholder ps r k w;
          (es, cs, w2) = map_routes sus placeholder ps (Suc k) rs w1
      in (e # es, c @ cs, w2))"

text \<open>
  \<^verbatim>\<open>RouterOutlet = ({ routes, placeholder, ..._props }) => <Switch>...</Switch>\<close>.
  The three arguments after \<open>sus\<close> are the three parts the parameter pattern splits the
  props object into: \<open>rs\<close> is \<^verbatim>\<open>routes\<close> (an array, as the prop types require),
  \<open>placeholder\<close> is \<^verbatim>\<open>placeholder\<close> and \<open>ps\<close> is \<^verbatim>\<open>_props\<close>, the object of every other
  own property. The result is the tree, the guard calls made and the world they leave.
\<close>

definition RouterOutlet ::
  "bool \<Rightarrow> 'w route list \<Rightarrow> jsval \<Rightarrow> props \<Rightarrow> 'w \<Rightarrow> element \<times> (nat \<times> props) list \<times> 'w" where
  "RouterOutlet sus rs placeholder ps w =
     (let (es, cs, w') = map_routes sus placeholder ps 0 rs w in (Switch es, cs, w'))"

text \<open>Reading the three parts of a result.\<close>

definition tree :: "element \<times> (nat \<times> props) list \<times> 'w \<Rightarrow> element" where
  "tree res = fst res"

definition guard_calls :: "element \<times> (nat \<times> props) list \<times> 'w \<Rightarrow> (nat \<times> props) list" where
  "guard_calls res = fst (snd res)"

definition world :: "element \<times> (nat \<times> props) list \<times> 'w \<Rightarrow> 'w" where
  "world res = snd (snd res)"

text \<open>The children of the \<^verbatim>\<open>Switch\<close> that RouterOutlet returns.\<close>

fun children :: "element \<Rightarrow> element list" where
  "children (Switch es) = es"
| "children _ = []"

text \<open>What a \<^verbatim>\<open>Route\<close> element renders when it is matched and given render props.\<close>

fun render_of :: "element \<Rightarrow> props \<Rightarrow> element option" where
  "render_of (Route k p e s f) rprops = Some (f rprops)"
| "render_of _ rprops = None"

text \<open>The element inside a \<^verbatim>\<open>Suspense\<close> boundary, or the element itself.\<close>

fun component_of :: "element \<Rightarrow> element" where
  "component_of (Suspense f c) = c"
| "component_of e = e"

text \<open>What evaluating one route does to the world: nothing, unless its guard is called.\<close>

definition guard_effect :: "props \<Rightarrow> 'w route \<Rightarrow> 'w \<Rightarrow> 'w" where
  "guard_effect ps r w =
     (if truthy (redirectTo r) then w
      else case canEnter r of None \<Rightarrow> w | Some g \<Rightarrow> snd (g ps w))"

text \<open>
  A guard is pure when it leaves the world as it found it and its verdict does not
  depend on the world.
\<close>

definition pure_guard :: "'w guard \<Rightarrow> bool" where
  "pure_guard g = (\<forall>ps w. snd (g ps w) = w \<and> (\<forall>w'. fst (g ps w') = fst (g ps w)))"

subsection \<open>Example routes\<close>

text \<open>
  The routes of the README: a login page, a protected page whose guard reads the
  \<^verbatim>\<open>auth\<close> prop, a redirection from the root, and the default route.
\<close>

definition isAuthenticated :: "'w guard" where
  "isAuthenticated ps w = (map_of ps ''auth'' = Some (JBool True), w)"

definition login_route :: "'w route" where
  "login_route =
     \<lparr>path = JStr ''/login'', exact = JUndefined, strict = JUndefined,
      component = JFun 0, canEnter = None, fallback = JUndefined,
      redirectTo = JUndefined, push = JUndefined, routes = JUndefined\<rparr>"

definition protected_route :: "'w route" where
  "protected_route =
     \<lparr>path = JStr ''/default'', exact = JUndefined, strict = JUndefined,
      component = JFun 1, canEnter = Some isAuthenticated, fallback = JStr ''/login'',
      redirectTo = JUndefined, push = JUndefined, routes = JUndefined\<rparr>"

definition root_redirect :: "'w route" where
  "root_redirect =
     \<lparr>path = JStr ''/'', exact = JBool True, strict = JUndefined,
      component = JUndefined, canEnter = None, fallback = JUndefined,
      redirectTo = JStr ''/default'', push = JUndefined, routes = JUndefined\<rparr>"

definition not_found_route :: "'w route" where
  "not_found_route =
     \<lparr>path = JUndefined, exact = JUndefined, strict = JUndefined,
      component = JFun 9, canEnter = None, fallback = JUndefined,
      redirectTo = JUndefined, push = JUndefined, routes = JUndefined\<rparr>"

definition readme_routes :: "'w route list" where
  "readme_routes = [login_route, protected_route, root_redirect, not_found_route]"

text \<open>A route whose \<^verbatim>\<open>redirectTo\<close> is the empty string, with a component.\<close>

definition empty_redirect :: "'w route" where
  "empty_redirect =
     \<lparr>path = JStr ''/old'', exact = JBool True, strict = JUndefined,
      component = JFun 2, canEnter = None, fallback = JUndefined,
      redirectTo = JStr '''', push = JUndefined, routes = JUndefined\<rparr>"

text \<open>The same with a guard; the world counts the calls of the guard.\<close>

definition guarded_empty_redirect :: "nat route" where
  "guarded_empty_redirect =
     \<lparr>path = JStr ''/old'', exact = JBool True, strict = JUndefined,
      component = JFun 2, canEnter = Some (\<lambda>ps n. (True, Suc n)), fallback = JStr ''/login'',
      redirectTo = JStr '''', push = JUndefined, routes = JUndefined\<rparr>"

text \<open>A route with a truthy \<^verbatim>\<open>redirectTo\<close> and a guard that would refuse and count.\<close>

definition guarded_redirect :: "nat route" where
  "guarded_redirect =
     \<lparr>path = JStr ''/'', exact = JBool True, strict = JUndefined,
      component = JUndefined, canEnter = Some (\<lambda>ps n. (False, Suc n)), fallback = JStr ''/login'',
      redirectTo = JStr ''/default'', push = JUndefined, routes = JUndefined\<rparr>"

text \<open>A guard that reads a flag of the world and flips it.\<close>

definition flag_route :: "bool route" where
  "flag_route =
     \<lparr>path = JStr ''/default'', exact = JUndefined, strict = JUndefined,
      component = JFun 1, canEnter = Some (\<lambda>ps b. (b, \<not> b)), fallback = JStr ''/login'',
      redirectTo = JUndefined, push = JUndefined, routes = JUndefined\<rparr>"

section \<open>The app-state engine\<close>

text \<open>
  The repository's files hold the README that documents \<^verbatim>\<open>createEntity\<close>,
  \<^verbatim>\<open>withStore\<close> and \<^verbatim>\<open>getPropsFromStore\<close>, but not their code. The definitions of
  this section are therefore written from the specification (sections 3 to 7), one
  operation each. Every operation returns the store after it, the events it caused in
  order, and its failure if any, so that a failed call shows the store it leaves.
\<close>

text \<open>Modelled from the spec: the error taxonomy of section 7 (the Store's code is absent).\<close>

datatype error =
    DuplicateActionError string
  | UnknownActionError string
  | UnknownEntityError string
  | ReactionExecutionError

text \<open>
  Modelled from the spec: a step function \<^verbatim>\<open>(state, payload) -> newState\<close> of a Reaction
  Descriptor (section 3); \<open>None\<close> is the function raising.
\<close>

type_synonym ('s, 'x) step = "'s \<Rightarrow> 'x \<Rightarrow> 's option"

text \<open>
  Modelled from the spec: the Reaction Descriptor of section 3, \<open>Simple transition\<close> and
  \<open>Async startup effect completion\<close> with \<open>startup\<close> optional. An effect is given by
  what it does with its \<^verbatim>\<open>complete\<close> continuation before it returns: \<open>Some r\<close> when it
  invokes \<^verbatim>\<open>complete(r)\<close>, \<open>None\<close> when it returns first (the completion may then
  arrive later through \<open>complete\<close>, or never).
\<close>

datatype ('s, 'p, 'r) reaction =
    Simple "('s, 'p) step"
  | Async "('s, 'p) step option" "'p \<Rightarrow> 'r option" "('s, 'r) step"

text \<open>
  Modelled from the spec: the Entity of section 3, its state (at declaration, the initial
  value) and its reaction table in declaration order; its name is its key in the Store.
\<close>

record ('s, 'p, 'r) entity =
  state :: 's
  reactionTable :: "(string \<times> ('s, 'p, 'r) reaction) list"

text \<open>
  Modelled from the spec: a subscriber of section 3; its update callback is observed as
  the event \<open>Updated\<close>.
\<close>

record subscriber =
  componentIdentity :: nat
  entityNames :: "string list"
  actionNames :: "string list"

text \<open>
  Modelled from the spec: the Store of section 3, with the completion handles of the
  asynchronous invocations still in flight (\<open>pending\<close>) and the next free handle.
\<close>

record ('s, 'p, 'r) store =
  entities :: "string \<rightharpoonup> ('s, 'p, 'r) entity"
  actionRegistry :: "string \<rightharpoonup> string \<times> ('s, 'p, 'r) reaction"
  subscribers :: "subscriber list"
  pending :: "nat \<rightharpoonup> string \<times> ('s, 'r) step"
  nextHandle :: nat

text \<open>
  Modelled from the spec: an injected prop (section 4.3), an entity's state or a bound
  action function, which is given by the action it dispatches.
\<close>

datatype 's injected = StateProp 's | BoundAction string

text \<open>
  Modelled from the spec: what an observer of the Store can see, in order.
  \<^item> \<open>Replaced e s\<close>: the state of entity \<open>e\<close> was replaced by \<open>s\<close>
  \<^item> \<open>Updated c ps\<close>: the update callback of component \<open>c\<close> was invoked with props \<open>ps\<close>
  \<^item> \<open>EffectInvoked a p h\<close>: the effect of action \<open>a\<close> was invoked with payload \<open>p\<close> and
    the continuation of handle \<open>h\<close>
  \<^item> \<open>CompleteInvoked h r\<close>: the continuation of handle \<open>h\<close> was invoked with \<open>r\<close>
\<close>

datatype ('s, 'p, 'r) event =
    Replaced string 's
  | Updated nat "(string \<times> 's injected) list"
  | EffectInvoked string 'p nat
  | CompleteInvoked nat 'r

text \<open>
  Modelled from the spec: \<^verbatim>\<open>construct\<close> of section 4.2 building the action registry. An
  action name that is registered already is the conflict of invariant I1.
\<close>

fun register_actions ::
  "string \<Rightarrow> (string \<times> ('s, 'p, 'r) reaction) list \<Rightarrow>
   (string \<rightharpoonup> string \<times> ('s, 'p, 'r) reaction) \<Rightarrow>
   error + (string \<rightharpoonup> string \<times> ('s, 'p, 'r) reaction)" where
  "register_actions e [] reg = Inr reg"
| "register_actions e ((a, rx) # rest) reg =
     (case reg a of
        Some _ \<Rightarrow> Inl (DuplicateActionError a)
      | None \<Rightarrow> register_actions e rest (reg(a \<mapsto> (e, rx))))"

text \<open>Modelled from the spec: the registry of all entities, in declaration order.\<close>

fun build_registry ::
  "(string \<times> ('s, 'p, 'r) entity) list \<Rightarrow>
   (string \<rightharpoonup> string \<times> ('s, 'p, 'r) reaction) \<Rightarrow>
   error + (string \<rightharpoonup> string \<times> ('s, 'p, 'r) reaction)" where
  "build_registry [] reg = Inr reg"
| "build_registry ((e, ent) # rest) reg =
     (case register_actions e (reactionTable ent) reg of
        Inl err \<Rightarrow> Inl err
      | Inr reg' \<Rightarrow> build_registry rest reg')"

text \<open>
  Modelled from the spec: \<^verbatim>\<open>construct(entities)\<close> of section 4.2. It validates I1, builds
  the registry and starts every entity at its declared state.
\<close>

definition construct ::
  "(string \<times> ('s, 'p, 'r) entity) list \<Rightarrow> error + ('s, 'p, 'r) store" where
  "construct ents =
     (case build_registry ents Map.empty of
        Inl err \<Rightarrow> Inl err
      | Inr reg \<Rightarrow>
          Inr \<lparr>entities = map_of ents, actionRegistry = reg, subscribers = [],
               pending = Map.empty, nextHandle = 0\<rparr>)"

text \<open>
  Modelled from the spec: the prop set of a subscriber (section 4.3), the states of its
  entities and its bound action functions.
\<close>

definition inject :: "('s, 'p, 'r) store \<Rightarrow> subscriber \<Rightarrow> (string \<times> 's injected) list" where
  "inject st sub =
     concat (map (\<lambda>n. case entities st n of None \<Rightarrow> [] | Some ent \<Rightarrow> [(n, StateProp (state ent))])
               (entityNames sub))
     @ map (\<lambda>a. (a, BoundAction a)) (actionNames sub)"

text \<open>
  Modelled from the spec: \<^verbatim>\<open>notify(entityName)\<close> of section 4.2. It walks the subscribers
  and invokes the callback of each one subscribed to the entity.
\<close>

definition notify :: "('s, 'p, 'r) store \<Rightarrow> string \<Rightarrow> ('s, 'p, 'r) event list" where
  "notify st e =
     map (\<lambda>sub. Updated (componentIdentity sub) (inject st sub))
       (filter (\<lambda>sub. e \<in> set (entityNames sub)) (subscribers st))"

text \<open>
  Modelled from the spec: publishing one step (section 4.1), the state replacement
  followed by \<^verbatim>\<open>notify\<close>.
\<close>

definition publish ::
  "('s, 'p, 'r) store \<Rightarrow> string \<Rightarrow> ('s, 'p, 'r) entity \<Rightarrow> 's \<Rightarrow>
   ('s, 'p, 'r) store \<times> ('s, 'p, 'r) event list" where
  "publish st e ent s' =
     (let st' = st\<lparr>entities := (entities st)(e \<mapsto> ent\<lparr>state := s'\<rparr>)\<rparr>
      in (st', Replaced e s' # notify st' e))"

text \<open>
  Modelled from the spec: \<^verbatim>\<open>complete(result)\<close>, step (c) of section 4.1. A handle
  completes at most once (I3): invoking a handle that is not pending does nothing.
\<close>

definition complete ::
  "('s, 'p, 'r) store \<Rightarrow> nat \<Rightarrow> 'r \<Rightarrow>
   ('s, 'p, 'r) store \<times> ('s, 'p, 'r) event list \<times> error option" where
  "complete st h r =
     (case pending st h of
        None \<Rightarrow> (st, [], None)
      | Some (e, completion) \<Rightarrow>
          (let st1 = st\<lparr>pending := (pending st)(h := None)\<rparr>
           in case entities st1 e of
                None \<Rightarrow> (st1, [CompleteInvoked h r], Some (UnknownEntityError e))
              | Some ent \<Rightarrow>
                  (case completion (state ent) r of
                     None \<Rightarrow> (st1, [CompleteInvoked h r], Some ReactionExecutionError)
                   | Some s' \<Rightarrow>
                       (let (st2, evs) = publish st1 e ent s'
                        in (st2, CompleteInvoked h r # evs, None)))))"

text \<open>
  Modelled from the spec: step (a) of an \<^verbatim>\<open>Async\<close> reaction (section 4.1). A startup
  that is present is computed and published; one that raises publishes nothing.
\<close>

definition startup_step ::
  "('s, 'p, 'r) store \<Rightarrow> string \<Rightarrow> ('s, 'p, 'r) entity \<Rightarrow> ('s, 'p) step option \<Rightarrow> 'p \<Rightarrow>
   (('s, 'p, 'r) store \<times> ('s, 'p, 'r) event list) option" where
  "startup_step st e ent startup p =
     (case startup of
        None \<Rightarrow> Some (st, [])
      | Some f \<Rightarrow> map_option (publish st e ent) (f (state ent) p))"

text \<open>
  Modelled from the spec: step (b) of section 4.1. The effect is invoked with the payload
  and a fresh completion handle; when it invokes the continuation before it returns,
  step (c) runs within the same call.
\<close>

definition effect_step ::
  "('s, 'p, 'r) store \<Rightarrow> string \<Rightarrow> string \<Rightarrow> ('p \<Rightarrow> 'r option) \<Rightarrow> ('s, 'r) step \<Rightarrow> 'p \<Rightarrow>
   ('s, 'p, 'r) store \<times> ('s, 'p, 'r) event list \<times> error option" where
  "effect_step st a e effect completion p =
     (let h = nextHandle st;
          st' = st\<lparr>pending := (pending st)(h \<mapsto> (e, completion)), nextHandle := Suc h\<rparr>
      in case effect p of
           None \<Rightarrow> (st', [EffectInvoked a p h], None)
         | Some r \<Rightarrow>
             (let (st'', evs, err) = complete st' h r
              in (st'', EffectInvoked a p h # evs, err)))"

text \<open>
  Modelled from the spec: executing a Reaction Descriptor against its entity (section
  4.1), with the error policy: a step that raises publishes nothing, and the steps
  published before it stay.
\<close>

definition execute ::
  "('s, 'p, 'r) store \<Rightarrow> string \<Rightarrow> string \<Rightarrow> ('s, 'p, 'r) entity \<Rightarrow> ('s, 'p, 'r) reaction \<Rightarrow> 'p \<Rightarrow>
   ('s, 'p, 'r) store \<times> ('s, 'p, 'r) event list \<times> error option" where
  "execute st a e ent rx p =
     (case rx of
        Simple transition \<Rightarrow>
          (case transition (state ent) p of
             None \<Rightarrow> (st, [], Some ReactionExecutionError)
           | Some s' \<Rightarrow> (let (st', evs) = publish st e ent s' in (st', evs, None)))
      | Async startup effect completion \<Rightarrow>
          (case startup_step st e ent startup p of
             None \<Rightarrow> (st, [], Some ReactionExecutionError)
           | Some (st1, evs1) \<Rightarrow>
               (let (st2, evs2, err) = effect_step st1 a e effect completion p
                in (st2, evs1 @ evs2, err))))"

text \<open>Modelled from the spec: \<^verbatim>\<open>dispatch(actionName, payload)\<close> of section 4.2.\<close>

definition dispatch ::
  "('s, 'p, 'r) store \<Rightarrow> string \<Rightarrow> 'p \<Rightarrow>
   ('s, 'p, 'r) store \<times> ('s, 'p, 'r) event list \<times> error option" where
  "dispatch st a p =
     (case actionRegistry st a of
        None \<Rightarrow> (st, [], Some (UnknownActionError a))
      | Some (e, rx) \<Rightarrow>
          (case entities st e of
             None \<Rightarrow> (st, [], Some (UnknownEntityError e))
           | Some ent \<Rightarrow> execute st a e ent rx p))"

text \<open>Modelled from the spec: \<^verbatim>\<open>getState(entityName)\<close> of section 4.2.\<close>

definition getState :: "('s, 'p, 'r) store \<Rightarrow> string \<Rightarrow> error + 's" where
  "getState st e =
     (case entities st e of None \<Rightarrow> Inl (UnknownEntityError e) | Some ent \<Rightarrow> Inr (state ent))"

text \<open>
  Modelled from the spec: \<^verbatim>\<open>subscribe\<close> of section 4.3, which registers the subscriber
  and delivers its first prop set at once.
\<close>

definition subscribe ::
  "('s, 'p, 'r) store \<Rightarrow> nat \<Rightarrow> string list \<Rightarrow> string list \<Rightarrow>
   ('s, 'p, 'r) store \<times> ('s, 'p, 'r) event list" where
  "subscribe st c es acts =
     (let sub = \<lparr>componentIdentity = c, entityNames = es, actionNames = acts\<rparr>
      in (st\<lparr>subscribers := subscribers st @ [sub]\<rparr>, [Updated c (inject st sub)]))"

text \<open>
  Modelled from the spec: \<^verbatim>\<open>unsubscribe\<close> of section 4.3; removing a subscriber that is
  not there changes nothing.
\<close>

definition unsubscribe :: "('s, 'p, 'r) store \<Rightarrow> nat \<Rightarrow> ('s, 'p, 'r) store" where
  "unsubscribe st c = st\<lparr>subscribers := filter (\<lambda>sub. componentIdentity sub \<noteq> c) (subscribers st)\<rparr>"

text \<open>
  Modelled from the spec: the stores an application can hold, the one built from the
  entities and every store an operation makes of such a store (section 3, lifecycle).
\<close>

inductive reachable ::
  "(string \<times> ('s, 'p, 'r) entity) list \<Rightarrow> ('s, 'p, 'r) store \<Rightarrow> bool"
  for ents :: "(string \<times> ('s, 'p, 'r) entity) list" where
  built: "construct ents = Inr st \<Longrightarrow> reachable ents st"
| dispatched: "reachable ents st \<Longrightarrow> reachable ents (fst (dispatch st a p))"
| completed: "reachable ents st \<Longrightarrow> reachable ents (fst (complete st h r))"
| subscribed: "reachable ents st \<Longrightarrow> reachable ents (fst (subscribe st c es acts))"
| unsubscribed: "reachable ents st \<Longrightarrow> reachable ents (unsubscribe st c)"

text \<open>The entities (by name, in order) that declare the action \<open>a\<close>.\<close>

definition declared_by :: "(string \<times> ('s, 'p, 'r) entity) list \<Rightarrow> string \<Rightarrow> string list" where
  "declared_by ents a =
     map fst (filter (\<lambda>d. a \<in> fst ` set (reactionTable (snd d))) ents)"

text \<open>
  The invariant of reachable stores: the registry is the one built from the entities,
  and the Store holds exactly the declared entities.
\<close>

definition store_inv :: "(string \<times> ('s, 'p, 'r) entity) list \<Rightarrow> ('s, 'p, 'r) store \<Rightarrow> bool" where
  "store_inv ents st =
     (build_registry ents Map.empty = Inr (actionRegistry st) \<and> dom (entities st) = fst ` set ents)"

subsection \<open>Example stores\<close>

text \<open>Scenario A of the specification: a counter with the action \<^verbatim>\<open>increment\<close>.\<close>

definition counter :: "(int, unit, unit) entity" where
  "counter = \<lparr>state = 0, reactionTable = [(''increment'', Simple (\<lambda>s p. Some (s + 1)))]\<rparr>"

definition counter_built :: "(int, unit, unit) store" where
  "counter_built =
     \<lparr>entities = map_of [(''counter'', counter)],
      actionRegistry = [''increment'' \<mapsto> (''counter'', Simple (\<lambda>s p. Some (s + 1)))],
      subscribers = [], pending = Map.empty, nextHandle = 0\<rparr>"

definition counter_store :: "(int, unit, unit) store" where
  "counter_store = fst (subscribe counter_built 7 [''counter''] [''increment''])"

text \<open>
  Scenario B: a session whose \<^verbatim>\<open>login\<close> sets a pending marker, runs an effect that
  completes with the user, and stores the user.
\<close>

record session_state =
  auth :: "string option"
  failed :: bool
  busy :: bool

definition login :: "(session_state, string, string) reaction" where
  "login = Async (Some (\<lambda>s p. Some (s\<lparr>busy := True\<rparr>)))
                 (\<lambda>p. Some ''user-1'')
                 (\<lambda>s r. Some (s\<lparr>auth := Some r, busy := False\<rparr>))"

definition session :: "(session_state, string, string) entity" where
  "session =
     \<lparr>state = \<lparr>auth = None, failed = False, busy = False\<rparr>,
      reactionTable = [(''login'', login), (''logout'', Simple (\<lambda>s p. Some (s\<lparr>auth := None\<rparr>)))]\<rparr>"

definition session_built :: "(session_state, string, string) store" where
  "session_built =
     \<lparr>entities = map_of [(''session'', session)],
      actionRegistry = [''login'' \<mapsto> (''session'', login),
                        ''logout'' \<mapsto> (''session'', Simple (\<lambda>s p. Some (s\<lparr>auth := None\<rparr>)))],
      subscribers = [], pending = Map.empty, nextHandle = 0\<rparr>"

definition session_store :: "(session_state, string, string) store" where
  "session_store = fst (subscribe session_built 1 [''session''] [''login''])"

text \<open>Scenario C: an entity with the action \<^verbatim>\<open>save\<close>, to be declared twice.\<close>

definition saver :: "(int, unit, unit) entity" where
  "saver = \<lparr>state = 0, reactionTable = [(''save'', Simple (\<lambda>s p. Some s))]\<rparr>"

section \<open>Properties of RouterOutlet\<close>

subsection \<open>One route\<close>

lemma outlet_child_world: "snd (snd (outlet_child sus ph ps r k w)) = guard_effect ps r w"
  by (auto simp: outlet_child_def guard_effect_def split: option.splits prod.splits)

lemma outlet_child_calls:
  "fst (snd (outlet_child sus ph ps r k w)) =
     (if \<not> truthy (redirectTo r) \<and> canEnter r \<noteq> None then [(k, ps)] else [])"
  by (auto simp: outlet_child_def split: option.splits prod.splits)

lemma outlet_child_redirectTo:
  "truthy (redirectTo r) \<Longrightarrow>
   outlet_child sus ph ps r k w =
     (Redirect k (path r) (exact r) (strict r) (redirectTo r) (push r), [], w)"
  by (simp add: outlet_child_def)

lemma outlet_child_guarded:
  "\<not> truthy (redirectTo r) \<Longrightarrow> canEnter r = Some g \<Longrightarrow>
   fst (outlet_child sus ph ps r k w) =
     (if fst (g ps w)
      then Route k (path r) (exact r) (strict r) (render sus ph r)
      else Redirect k (path r) (exact r) (strict r) (fallback r) (push r))"
  by (simp add: outlet_child_def case_prod_unfold)

lemma outlet_child_unguarded:
  "\<not> truthy (redirectTo r) \<Longrightarrow> canEnter r = None \<Longrightarrow>
   fst (outlet_child sus ph ps r k w) = Route k (path r) (exact r) (strict r) (render sus ph r)"
  by (simp add: outlet_child_def)

lemma outlet_child_ignores_guard:
  "truthy (redirectTo r) \<Longrightarrow>
   outlet_child sus ph ps (r\<lparr>canEnter := c\<rparr>) k w = outlet_child sus ph ps r k w"
  by (simp add: outlet_child_def)

subsection \<open>The list of routes\<close>

lemma map_routes_Cons:
  "map_routes sus ph ps k (r # rs) w =
     (fst (outlet_child sus ph ps r k w) # fst (map_routes sus ph ps (Suc k) rs (guard_effect ps r w)),
      fst (snd (outlet_child sus ph ps r k w)) @
        fst (snd (map_routes sus ph ps (Suc k) rs (guard_effect ps r w))),
      snd (snd (map_routes sus ph ps (Suc k) rs (guard_effect ps r w))))"
  by (simp add: case_prod_unfold Let_def outlet_child_world)

lemma map_routes_world:
  "snd (snd (map_routes sus ph ps k rs w)) = fold (guard_effect ps) rs w"
  by (induction rs arbitrary: k w) (simp_all add: map_routes_Cons del: map_routes.simps(2))

lemma map_routes_nth:
  "i < length rs \<Longrightarrow>
   fst (map_routes sus ph ps k rs w) ! i =
   fst (outlet_child sus ph ps (rs ! i) (k + i) (fold (guard_effect ps) (take i rs) w))"
proof (induction rs arbitrary: k w i)
  case Nil
  then show ?case by simp
next
  case (Cons r rs)
  show ?case
  proof (cases i)
    case 0
    then show ?thesis by (simp add: map_routes_Cons del: map_routes.simps(2))
  next
    case (Suc j)
    with Cons.prems have "j < length rs" by simp
    from Cons.IH [OF this, of "Suc k"] Suc show ?thesis
      by (simp add: map_routes_Cons del: map_routes.simps(2))
  qed
qed

lemma map_routes_calls:
  "fst (snd (map_routes sus ph ps k rs w)) =
   map (\<lambda>(i, r). (i, ps))
     (filter (\<lambda>(i, r). \<not> truthy (redirectTo r) \<and> canEnter r \<noteq> None) (enumerate k rs))"
  by (induction rs arbitrary: k w)
     (simp_all add: map_routes_Cons outlet_child_calls del: map_routes.simps(2))

lemma map_routes_ignores_guard:
  "i < length rs \<Longrightarrow> truthy (redirectTo (rs ! i)) \<Longrightarrow>
   map_routes sus ph ps k (rs[i := (rs ! i)\<lparr>canEnter := c\<rparr>]) w = map_routes sus ph ps k rs w"
proof (induction rs arbitrary: i k w)
  case Nil
  then show ?case by simp
next
  case (Cons r rs)
  show ?case
  proof (cases i)
    case 0
    with Cons.prems show ?thesis by (simp add: outlet_child_ignores_guard)
  next
    case (Suc j)
    with Cons.prems Cons.IH [of j] show ?thesis by simp
  qed
qed

lemma calls_ignore_path:
  "map (\<lambda>(i, r). (i, ps))
     (filter (\<lambda>(i, r). \<not> truthy (redirectTo r) \<and> canEnter r \<noteq> None)
       (enumerate k (map (\<lambda>r. r\<lparr>path := f r\<rparr>) rs))) =
   map (\<lambda>(i, r). (i, ps))
     (filter (\<lambda>(i, r). \<not> truthy (redirectTo r) \<and> canEnter r \<noteq> None) (enumerate k rs))"
  by (induction rs arbitrary: k) simp_all

subsection \<open>The outlet\<close>

lemma RouterOutlet_tree:
  "tree (RouterOutlet sus rs ph ps w) = Switch (fst (map_routes sus ph ps 0 rs w))"
  by (simp add: RouterOutlet_def tree_def case_prod_unfold Let_def)

lemma RouterOutlet_world: "world (RouterOutlet sus rs ph ps w) = fold (guard_effect ps) rs w"
  by (simp add: RouterOutlet_def world_def case_prod_unfold Let_def map_routes_world)

lemma RouterOutlet_calls:
  "guard_calls (RouterOutlet sus rs ph ps w) =
   map (\<lambda>(i, r). (i, ps))
     (filter (\<lambda>(i, r). \<not> truthy (redirectTo r) \<and> canEnter r \<noteq> None) (enumerate 0 rs))"
  by (simp add: RouterOutlet_def guard_calls_def case_prod_unfold Let_def map_routes_calls)

lemma RouterOutlet_child:
  "i < length rs \<Longrightarrow>
   children (tree (RouterOutlet sus rs ph ps w)) ! i =
   fst (outlet_child sus ph ps (rs ! i) i (world (RouterOutlet sus (take i rs) ph ps w)))"
  by (simp add: RouterOutlet_tree RouterOutlet_world map_routes_nth)

lemma guard_call_member:
  assumes "i < length rs" and "\<not> truthy (redirectTo (rs ! i))" and "canEnter (rs ! i) \<noteq> None"
  shows "(i, ps) \<in> set (guard_calls (RouterOutlet sus rs ph ps w))"
proof -
  have "(i, rs ! i) \<in> set (enumerate 0 rs)"
    using assms(1) by (simp add: in_set_enumerate_eq)
  then have "(i, rs ! i) \<in> set (filter (\<lambda>(i, r). \<not> truthy (redirectTo r) \<and> canEnter r \<noteq> None)
                 (enumerate 0 rs))"
    using assms(2,3) by simp
  then have "(\<lambda>(i, r). (i, ps)) (i, rs ! i) \<in> set (guard_calls (RouterOutlet sus rs ph ps w))"
    unfolding RouterOutlet_calls set_map by (rule imageI)
  then show ?thesis by simp
qed

subsection \<open>Pure guards\<close>

lemma guard_effect_pure:
  assumes "\<forall>g. \<not> truthy (redirectTo r) \<and> canEnter r = Some g \<longrightarrow> pure_guard g"
  shows "guard_effect ps r w = w"
  using assms by (auto simp: guard_effect_def pure_guard_def split: option.splits)

lemma outlet_child_pure:
  assumes "\<forall>g. \<not> truthy (redirectTo r) \<and> canEnter r = Some g \<longrightarrow> pure_guard g"
  shows "fst (outlet_child sus ph ps r k w) = fst (outlet_child sus ph ps r k w')"
proof (cases "truthy (redirectTo r)")
  case True
  then show ?thesis by (simp add: outlet_child_def)
next
  case False
  show ?thesis
  proof (cases "canEnter r")
    case None
    with False show ?thesis by (simp add: outlet_child_def)
  next
    case (Some g)
    with False assms have "pure_guard g" by simp
    then have "fst (g ps w) = fst (g ps w')"
      by (simp add: pure_guard_def)
    with False Some show ?thesis
      by (simp add: outlet_child_guarded)
  qed
qed

lemma map_routes_pure:
  assumes "\<forall>r \<in> set rs. \<forall>g. \<not> truthy (redirectTo r) \<and> canEnter r = Some g \<longrightarrow> pure_guard g"
  shows "fst (map_routes sus ph ps k rs w) = fst (map_routes sus ph ps k rs w')"
  using assms
proof (induction rs arbitrary: k w w')
  case Nil
  then show ?case by simp
next
  case (Cons r rs)
  have p: "\<forall>g. \<not> truthy (redirectTo r) \<and> canEnter r = Some g \<longrightarrow> pure_guard g"
    using Cons.prems by simp
  have m: "fst (map_routes sus ph ps (Suc k) rs w) = fst (map_routes sus ph ps (Suc k) rs w')"
    using Cons.prems by (intro Cons.IH) simp
  show ?case
    using m outlet_child_pure [OF p, of sus ph ps k w w']
    by (simp add: map_routes_Cons guard_effect_pure [OF p] del: map_routes.simps(2))
qed

lemma fold_guard_effect_pure:
  assumes "\<forall>r \<in> set rs. \<forall>g. \<not> truthy (redirectTo r) \<and> canEnter r = Some g \<longrightarrow> pure_guard g"
  shows "fold (guard_effect ps) rs w = w"
  using assms by (induction rs arbitrary: w) (simp_all add: guard_effect_pure)

subsection \<open>Guarded routes\<close>

text \<open>
  Claim C5. A route that defines a \<^verbatim>\<open>canEnter\<close> guard \<open>g\<close> and no \<^verbatim>\<open>redirectTo\<close>: the
  outlet calls \<open>g\<close> with its rest props, in the world that the routes before it have left.
  When the guard says true the child at the route's index is the \<^verbatim>\<open>Route\<close> of the
  route's path, whose render prop yields the route's component; when it says false the
  child is a \<^verbatim>\<open>Redirect\<close> from the route's path to the route's fallback.
\<close>

theorem guarded_route_needs_canEnter:
  assumes "i < length rs" and "redirectTo (rs ! i) = JUndefined" and "canEnter (rs ! i) = Some g"
  shows "children (tree (RouterOutlet sus rs ph ps w)) ! i =
           (if fst (g ps (world (RouterOutlet sus (take i rs) ph ps w)))
            then Route i (path (rs ! i)) (exact (rs ! i)) (strict (rs ! i)) (render sus ph (rs ! i))
            else Redirect i (path (rs ! i)) (exact (rs ! i)) (strict (rs ! i))
                   (fallback (rs ! i)) (push (rs ! i)))
         \<and> component_of (render sus ph (rs ! i) rprops) =
             Component (component (rs ! i)) (AList.update ''routes'' (routes (rs ! i)) rprops)"
proof -
  have "\<not> truthy (redirectTo (rs ! i))" using assms(2) by simp
  then show ?thesis
    using assms(1,3) by (simp add: RouterOutlet_child outlet_child_guarded render_def)
qed

text \<open>
  The README's routes with the user not authenticated: the protected route, at index 1,
  redirects to the login page.
\<close>

theorem guarded_route_needs_canEnter_witness:
  "1 < length (readme_routes :: unit route list) \<and>
   redirectTo ((readme_routes :: unit route list) ! 1) = JUndefined \<and>
   canEnter ((readme_routes :: unit route list) ! 1) = Some isAuthenticated \<and>
   children (tree (RouterOutlet True readme_routes JUndefined [(''auth'', JBool False)] ())) ! 1 =
     Redirect 1 (JStr ''/default'') JUndefined JUndefined (JStr ''/login'') JUndefined \<and>
   component_of (render True JUndefined ((readme_routes :: unit route list) ! 1) []) =
     Component (JFun 1) [(''routes'', JUndefined)]"
  using guarded_route_needs_canEnter [of 1 "readme_routes :: unit route list" isAuthenticated True
      JUndefined "[(''auth'', JBool False)]" "()" "[]"]
  by (simp add: readme_routes_def protected_route_def isAuthenticated_def)

subsection \<open>Redirections\<close>

text \<open>
  Claim C6, as amended. A route whose \<^verbatim>\<open>redirectTo\<close> is truthy (a non-empty string or
  an object): the child at its index is a \<^verbatim>\<open>Redirect\<close> from the route's path to
  \<^verbatim>\<open>redirectTo\<close> that carries the route's \<^verbatim>\<open>exact\<close>, \<^verbatim>\<open>strict\<close> and \<^verbatim>\<open>push\<close>; no component
  is rendered for it.
\<close>

theorem redirectTo_route_redirects:
  assumes "i < length rs" and "truthy (redirectTo (rs ! i))"
  shows "children (tree (RouterOutlet sus rs ph ps w)) ! i =
           Redirect i (path (rs ! i)) (exact (rs ! i)) (strict (rs ! i))
             (redirectTo (rs ! i)) (push (rs ! i))
       \<and> render_of (children (tree (RouterOutlet sus rs ph ps w)) ! i) rprops = None"
  using assms by (simp add: RouterOutlet_child outlet_child_redirectTo)

theorem redirectTo_route_redirects_witness:
  "2 < length (readme_routes :: unit route list) \<and>
   truthy (redirectTo ((readme_routes :: unit route list) ! 2)) \<and>
   children (tree (RouterOutlet True readme_routes JUndefined [] ())) ! 2 =
     Redirect 2 (JStr ''/'') (JBool True) JUndefined (JStr ''/default'') JUndefined \<and>
   render_of (children (tree (RouterOutlet True (readme_routes :: unit route list)
       JUndefined [] ())) ! 2) [] = None"
  using redirectTo_route_redirects [of 2 "readme_routes :: unit route list" True JUndefined "[]" "()"
      "[]"]
  by (simp add: readme_routes_def root_redirect_def)

text \<open>
  Claim C6 as stated fails where \<^verbatim>\<open>redirectTo\<close> is specified as the empty string: the
  test \<^verbatim>\<open>route.redirectTo ? ... : ...\<close> takes it for absent, and the route's component
  is rendered.
\<close>

theorem empty_redirectTo_renders_component:
  "redirectTo (empty_redirect :: unit route) \<noteq> JUndefined \<and>
   children (tree (RouterOutlet True [empty_redirect] JUndefined [] ())) ! 0 =
     Route 0 (JStr ''/old'') (JBool True) JUndefined
       (render True JUndefined (empty_redirect :: unit route)) \<and>
   render_of (children (tree (RouterOutlet True [empty_redirect] JUndefined [] ())) ! 0) [] =
     Some (Suspense Div (Component (JFun 2) [(''routes'', JUndefined)]))"
  by (simp add: RouterOutlet_child outlet_child_def empty_redirect_def render_def)

text \<open>
  Claim C8, as amended. A route whose \<^verbatim>\<open>redirectTo\<close> is truthy and that also has a guard:
  the guard is not called for it (no call at its index), the whole result (tree, calls
  and world) is the one the outlet gives with any other guard, or none, in its place,
  and the child at its index is the \<^verbatim>\<open>Redirect\<close> to \<^verbatim>\<open>redirectTo\<close>.
\<close>

theorem redirectTo_skips_canEnter:
  assumes "i < length rs" and "truthy (redirectTo (rs ! i))"
  shows "i \<notin> fst ` set (guard_calls (RouterOutlet sus rs ph ps w))
       \<and> RouterOutlet sus (rs[i := (rs ! i)\<lparr>canEnter := c\<rparr>]) ph ps w = RouterOutlet sus rs ph ps w
       \<and> children (tree (RouterOutlet sus rs ph ps w)) ! i =
           Redirect i (path (rs ! i)) (exact (rs ! i)) (strict (rs ! i))
             (redirectTo (rs ! i)) (push (rs ! i))"
proof -
  have "\<forall>p \<in> set (enumerate 0 rs). fst p = i \<longrightarrow> snd p = rs ! i"
    using assms(1) by (auto simp: in_set_enumerate_eq)
  then have "i \<notin> fst ` set (guard_calls (RouterOutlet sus rs ph ps w))"
    using assms(2) by (auto simp: RouterOutlet_calls)
  moreover have "RouterOutlet sus (rs[i := (rs ! i)\<lparr>canEnter := c\<rparr>]) ph ps w =
      RouterOutlet sus rs ph ps w"
    using assms by (simp add: RouterOutlet_def map_routes_ignores_guard)
  moreover have "children (tree (RouterOutlet sus rs ph ps w)) ! i =
           Redirect i (path (rs ! i)) (exact (rs ! i)) (strict (rs ! i))
             (redirectTo (rs ! i)) (push (rs ! i))"
    using assms by (simp add: RouterOutlet_child outlet_child_redirectTo)
  ultimately show ?thesis by blast
qed

theorem redirectTo_skips_canEnter_witness:
  "0 < length [guarded_redirect] \<and>
   truthy (redirectTo ([guarded_redirect] ! 0)) \<and>
   0 \<notin> fst ` set (guard_calls (RouterOutlet True [guarded_redirect] JUndefined [] 0)) \<and>
   RouterOutlet True [guarded_redirect] JUndefined [] 0 =
     (Switch [Redirect 0 (JStr ''/'') (JBool True) JUndefined (JStr ''/default'') JUndefined], [], 0)"
  using redirectTo_skips_canEnter [of 0 "[guarded_redirect]" True JUndefined "[]" 0 None]
  by (simp add: guarded_redirect_def RouterOutlet_def outlet_child_def)

text \<open>
  Claim C8 as stated fails where \<^verbatim>\<open>redirectTo\<close> is specified as the empty string: the
  guard is called, once, with the outlet's rest props.
\<close>

theorem empty_redirectTo_invokes_canEnter:
  "redirectTo guarded_empty_redirect \<noteq> JUndefined \<and> canEnter guarded_empty_redirect \<noteq> None \<and>
   guard_calls (RouterOutlet True [guarded_empty_redirect] JUndefined [(''auth'', JBool True)] 0) =
     [(0, [(''auth'', JBool True)])] \<and>
   world (RouterOutlet True [guarded_empty_redirect] JUndefined [(''auth'', JBool True)] 0) = 1"
  by (simp add: RouterOutlet_def outlet_child_def guarded_empty_redirect_def guard_calls_def
      world_def)

subsection \<open>Which guards are called, and with what\<close>

text \<open>
  Claim C9. On every evaluation, each route with a guard and no \<^verbatim>\<open>redirectTo\<close> has its
  guard called with the outlet's rest props (the props without \<^verbatim>\<open>routes\<close> and
  \<^verbatim>\<open>placeholder\<close>; the render props of a \<^verbatim>\<open>Route\<close> exist only inside its render prop).
  The calls are exactly those of the guarded routes whose \<^verbatim>\<open>redirectTo\<close> is not truthy,
  in list order; the world after the evaluation is the one these calls leave; and the
  calls do not depend on the routes' paths: no location is consulted.
\<close>

theorem every_guard_is_invoked:
  "(\<forall>i < length rs. redirectTo (rs ! i) = JUndefined \<and> canEnter (rs ! i) \<noteq> None \<longrightarrow>
      (i, ps) \<in> set (guard_calls (RouterOutlet sus rs ph ps w)))
   \<and> guard_calls (RouterOutlet sus rs ph ps w) =
       map (\<lambda>(i, r). (i, ps))
         (filter (\<lambda>(i, r). \<not> truthy (redirectTo r) \<and> canEnter r \<noteq> None) (enumerate 0 rs))
   \<and> world (RouterOutlet sus rs ph ps w) = fold (guard_effect ps) rs w
   \<and> guard_calls (RouterOutlet sus (map (\<lambda>r. r\<lparr>path := f r\<rparr>) rs) ph ps w) =
       guard_calls (RouterOutlet sus rs ph ps w)"
proof -
  have "guard_calls (RouterOutlet sus (map (\<lambda>r. r\<lparr>path := f r\<rparr>) rs) ph ps w) =
       guard_calls (RouterOutlet sus rs ph ps w)"
    by (simp only: RouterOutlet_calls calls_ignore_path)
  then show ?thesis
    by (simp add: guard_call_member RouterOutlet_world) (simp add: RouterOutlet_calls)
qed

theorem every_guard_is_invoked_witness:
  "1 < length (readme_routes :: bool route list) \<and>
   redirectTo ((readme_routes :: bool route list) ! 1) = JUndefined \<and>
   canEnter ((readme_routes :: bool route list) ! 1) \<noteq> None \<and>
   (1, [(''auth'', JBool True)]) \<in>
      set (guard_calls (RouterOutlet True (readme_routes :: bool route list) JUndefined
             [(''auth'', JBool True)] False)) \<and>
   guard_calls (RouterOutlet True (readme_routes :: bool route list) JUndefined
             [(''auth'', JBool True)] False) = [(1, [(''auth'', JBool True)])]"
  using every_guard_is_invoked [of "readme_routes :: bool route list" "[(''auth'', JBool True)]"
      True JUndefined False path]
  by (simp add: readme_routes_def protected_route_def login_route_def root_redirect_def
      not_found_route_def)

subsection \<open>The Suspense boundary\<close>

text \<open>
  Claim C10, as amended. A component route (no \<^verbatim>\<open>redirectTo\<close>, guard absent or passing)
  renders its component, given the render props and the route's nested routes. When the
  \<^verbatim>\<open>Suspense\<close> that react exports is defined, the component is wrapped in a
  \<^verbatim>\<open>Suspense\<close> boundary whose fallback is the placeholder when it is truthy (as every
  function or object is) and an empty \<^verbatim>\<open><div />\<close> otherwise; when it is not defined,
  the component is rendered without a boundary.
\<close>

theorem component_route_suspense:
  assumes "i < length rs" and "redirectTo (rs ! i) = JUndefined"
    and "case canEnter (rs ! i) of None \<Rightarrow> True
         | Some g \<Rightarrow> fst (g ps (world (RouterOutlet sus (take i rs) ph ps w)))"
  shows "render_of (children (tree (RouterOutlet sus rs ph ps w)) ! i) rprops =
           Some (if sus
                 then Suspense (if truthy ph then Node ph else Div)
                        (Component (component (rs ! i))
                           (AList.update ''routes'' (routes (rs ! i)) rprops))
                 else Component (component (rs ! i))
                        (AList.update ''routes'' (routes (rs ! i)) rprops))"
proof -
  have nr: "\<not> truthy (redirectTo (rs ! i))" using assms(2) by simp
  have "children (tree (RouterOutlet sus rs ph ps w)) ! i =
          Route i (path (rs ! i)) (exact (rs ! i)) (strict (rs ! i)) (render sus ph (rs ! i))"
  proof (cases "canEnter (rs ! i)")
    case None
    then show ?thesis using assms(1) nr
      by (simp add: RouterOutlet_child outlet_child_unguarded)
  next
    case (Some g)
    then show ?thesis using assms(1,3) nr
      by (simp add: RouterOutlet_child outlet_child_guarded)
  qed
  then show ?thesis by (simp add: render_def)
qed

theorem component_route_suspense_witness:
  "1 < length (readme_routes :: unit route list) \<and>
   redirectTo ((readme_routes :: unit route list) ! 1) = JUndefined \<and>
   render_of (children (tree (RouterOutlet True (readme_routes :: unit route list) (JFun 7)
       [(''auth'', JBool True)] ())) ! 1) [(''match'', JNull)] =
     Some (Suspense (Node (JFun 7))
            (Component (JFun 1) [(''match'', JNull), (''routes'', JUndefined)]))"
  using component_route_suspense [of 1 "readme_routes :: unit route list" "[(''auth'', JBool True)]"
      True "JFun 7" "()" "[(''match'', JNull)]"]
  by (simp add: readme_routes_def protected_route_def login_route_def isAuthenticated_def
      RouterOutlet_world guard_effect_def)

text \<open>
  Claim C10 as stated fails where react exports no \<^verbatim>\<open>Suspense\<close>: the branch
  \<^verbatim>\<open>Suspense ? ... : ...\<close> then renders the component bare, placeholder or not.
\<close>

theorem no_Suspense_renders_bare_component:
  "render_of (children (tree (RouterOutlet False [login_route] (JFun 7) [] ())) ! 0) [] =
     Some (Component (JFun 0) [(''routes'', JUndefined)])"
  by (simp add: RouterOutlet_child outlet_child_def login_route_def render_def)

subsection \<open>Purity\<close>

text \<open>
  Claim C7, as amended. RouterOutlet touches the world only by calling guards. When every
  guard it calls is pure, two evaluations with the same routes and props give the same
  tree whatever the world is, and the evaluation leaves the world as it found it.
\<close>

theorem pure_guards_pure_outlet:
  assumes "\<forall>r \<in> set rs. \<forall>g. \<not> truthy (redirectTo r) \<and> canEnter r = Some g \<longrightarrow> pure_guard g"
  shows "tree (RouterOutlet sus rs ph ps w) = tree (RouterOutlet sus rs ph ps w')
       \<and> world (RouterOutlet sus rs ph ps w) = w"
  using map_routes_pure [OF assms, of sus ph ps 0 w w'] fold_guard_effect_pure [OF assms, of ps w]
  by (simp add: RouterOutlet_tree RouterOutlet_world)

theorem pure_guards_pure_outlet_witness:
  "tree (RouterOutlet True (readme_routes :: bool route list) JUndefined [] True) =
     tree (RouterOutlet True readme_routes JUndefined [] False) \<and>
   world (RouterOutlet True (readme_routes :: bool route list) JUndefined [] True) = True"
proof -
  have h: "\<forall>r \<in> set (readme_routes :: bool route list).
            \<forall>g. \<not> truthy (redirectTo r) \<and> canEnter r = Some g \<longrightarrow> pure_guard g"
    by (simp add: readme_routes_def protected_route_def login_route_def root_redirect_def
        not_found_route_def pure_guard_def isAuthenticated_def)
  show ?thesis using pure_guards_pure_outlet [OF h, of True JUndefined "[]" True False] by simp
qed

text \<open>
  Claim C7 as stated fails for a guard that reads and writes the world: with the same
  routes and props the tree differs between two worlds, and the evaluation changes the
  world.
\<close>

theorem impure_guard_changes_tree:
  "tree (RouterOutlet True [flag_route] JUndefined [] True) \<noteq>
     tree (RouterOutlet True [flag_route] JUndefined [] False) \<and>
   world (RouterOutlet True [flag_route] JUndefined [] True) \<noteq> True"
  by (simp add: RouterOutlet_def outlet_child_def flag_route_def tree_def world_def)

section \<open>Properties of the app-state engine\<close>

subsection \<open>The action registry\<close>

lemma register_actions_Inr:
  "register_actions e tbl reg = Inr reg' \<Longrightarrow>
   fst ` set tbl \<inter> dom reg = {} \<and> dom reg' = dom reg \<union> fst ` set tbl \<and>
   (\<forall>b e' rx'. reg' b = Some (e', rx') \<longrightarrow>
      reg b = Some (e', rx') \<or> (e' = e \<and> (b, rx') \<in> set tbl))"
proof (induction tbl arbitrary: reg)
  case Nil
  then show ?case by simp
next
  case (Cons x tbl)
  obtain a rx where x: "x = (a, rx)" by (cases x)
  from Cons.prems x have free: "reg a = None"
    and rest: "register_actions e tbl (reg(a \<mapsto> (e, rx))) = Inr reg'"
    by (simp_all split: option.splits)
  from Cons.IH [OF rest] have
    i1: "fst ` set tbl \<inter> dom (reg(a \<mapsto> (e, rx))) = {}" and
    i2: "dom reg' = dom (reg(a \<mapsto> (e, rx))) \<union> fst ` set tbl" and
    i3: "\<And>b e' rx'. reg' b = Some (e', rx') \<Longrightarrow>
           (reg(a \<mapsto> (e, rx))) b = Some (e', rx') \<or> (e' = e \<and> (b, rx') \<in> set tbl)"
    by blast+
  have 1: "fst ` set (x # tbl) \<inter> dom reg = {}"
    using i1 free x by auto
  have 2: "dom reg' = dom reg \<union> fst ` set (x # tbl)"
    using i2 x by auto
  have 3: "reg b = Some (e', rx') \<or> (e' = e \<and> (b, rx') \<in> set (x # tbl))"
    if "reg' b = Some (e', rx')" for b e' rx'
    using i3 [OF that] x by (cases "b = a") auto
  from 1 2 3 show ?case by blast
qed

lemma register_actions_Inl:
  "register_actions e tbl reg = Inl err \<Longrightarrow> distinct (map fst tbl) \<Longrightarrow>
   \<exists>a. err = DuplicateActionError a \<and> a \<in> fst ` set tbl \<and> a \<in> dom reg"
proof (induction tbl arbitrary: reg)
  case Nil
  then show ?case by simp
next
  case (Cons x tbl)
  obtain a rx where x: "x = (a, rx)" by (cases x)
  show ?case
  proof (cases "reg a")
    case None
    with Cons.prems x have rest: "register_actions e tbl (reg(a \<mapsto> (e, rx))) = Inl err"
      by simp
    from Cons.prems x have d: "distinct (map fst tbl)" and na: "a \<notin> fst ` set tbl" by auto
    from Cons.IH [OF rest d] obtain b where
      b: "err = DuplicateActionError b" "b \<in> fst ` set tbl" "b \<in> dom (reg(a \<mapsto> (e, rx)))"
      by blast
    with na have "b \<noteq> a" by auto
    with b x show ?thesis by auto
  next
    case (Some v)
    with Cons.prems x show ?thesis by auto
  qed
qed

lemma register_actions_succeeds:
  "fst ` set tbl \<inter> dom reg = {} \<Longrightarrow> distinct (map fst tbl) \<Longrightarrow>
   \<exists>reg'. register_actions e tbl reg = Inr reg'"
proof (induction tbl arbitrary: reg)
  case Nil
  then show ?case by simp
next
  case (Cons x tbl)
  obtain a rx where x: "x = (a, rx)" by (cases x)
  from Cons.prems x have free: "reg a = None" by auto
  from Cons.prems x have "fst ` set tbl \<inter> dom (reg(a \<mapsto> (e, rx))) = {}" "distinct (map fst tbl)"
    by auto
  from Cons.IH [OF this] obtain reg' where "register_actions e tbl (reg(a \<mapsto> (e, rx))) = Inr reg'"
    by blast
  with free x show ?case by simp
qed

lemma declared_by_Cons:
  "declared_by ((e, ent) # rest) a =
     (if a \<in> fst ` set (reactionTable ent) then e # declared_by rest a else declared_by rest a)"
  by (simp add: declared_by_def)

lemma declared_by_Nil: "declared_by [] a = []"
  by (simp add: declared_by_def)

lemma build_registry_Inr:
  "build_registry ents reg = Inr reg' \<Longrightarrow>
   (\<forall>a. length (declared_by ents a) \<le> 1) \<and>
   (\<forall>a \<in> dom reg. declared_by ents a = []) \<and>
   (\<forall>a. a \<in> dom reg' \<longleftrightarrow> a \<in> dom reg \<or> declared_by ents a \<noteq> []) \<and>
   (\<forall>a e rx. reg' a = Some (e, rx) \<longrightarrow>
      reg a = Some (e, rx) \<or> (\<exists>ent. (e, ent) \<in> set ents \<and> (a, rx) \<in> set (reactionTable ent)))"
proof (induction ents arbitrary: reg)
  case Nil
  then show ?case by (simp add: declared_by_Nil)
next
  case (Cons d ents)
  obtain e ent where d: "d = (e, ent)" by (cases d)
  from Cons.prems d obtain reg1 where
    r1: "register_actions e (reactionTable ent) reg = Inr reg1"
    and r2: "build_registry ents reg1 = Inr reg'"
    by (auto split: sum.splits)
  note A = register_actions_Inr [OF r1]
  note B = Cons.IH [OF r2]
  have 1: "\<forall>a. length (declared_by (d # ents) a) \<le> 1"
    using A B d by (auto simp: declared_by_Cons)
  have 2: "\<forall>a \<in> dom reg. declared_by (d # ents) a = []"
    using A B d by (auto simp: declared_by_Cons)
  have 3: "\<forall>a. a \<in> dom reg' \<longleftrightarrow> a \<in> dom reg \<or> declared_by (d # ents) a \<noteq> []"
    using A B d by (auto simp: declared_by_Cons)
  have 4: "\<forall>a e' rx. reg' a = Some (e', rx) \<longrightarrow>
      reg a = Some (e', rx) \<or> (\<exists>ent'. (e', ent') \<in> set (d # ents) \<and> (a, rx) \<in> set (reactionTable ent'))"
  proof (intro allI impI)
    fix a e' rx assume "reg' a = Some (e', rx)"
    with B have "reg1 a = Some (e', rx) \<or> (\<exists>ent'. (e', ent') \<in> set ents \<and> (a, rx) \<in> set (reactionTable ent'))"
      by blast
    then show "reg a = Some (e', rx) \<or> (\<exists>ent'. (e', ent') \<in> set (d # ents) \<and> (a, rx) \<in> set (reactionTable ent'))"
    proof
      assume "reg1 a = Some (e', rx)"
      with A have "reg a = Some (e', rx) \<or> (e' = e \<and> (a, rx) \<in> set (reactionTable ent))"
        by blast
      then show ?thesis using d by auto
    next
      assume "\<exists>ent'. (e', ent') \<in> set ents \<and> (a, rx) \<in> set (reactionTable ent')"
      then show ?thesis by auto
    qed
  qed
  from 1 2 3 4 show ?case by blast
qed

lemma build_registry_Inl:
  "build_registry ents reg = Inl err \<Longrightarrow>
   \<forall>d \<in> set ents. distinct (map fst (reactionTable (snd d))) \<Longrightarrow>
   \<exists>a. err = DuplicateActionError a \<and>
       (1 < length (declared_by ents a) \<or> (a \<in> dom reg \<and> declared_by ents a \<noteq> []))"
proof (induction ents arbitrary: reg)
  case Nil
  then show ?case by simp
next
  case (Cons d ents)
  obtain e ent where d: "d = (e, ent)" by (cases d)
  show ?case
  proof (cases "register_actions e (reactionTable ent) reg")
    case (Inl err')
    with Cons.prems d have "err' = err" by simp
    with Inl Cons.prems(2) d register_actions_Inl [of e "reactionTable ent" reg err]
    show ?thesis by (auto simp: declared_by_Cons)
  next
    case (Inr reg1)
    with Cons.prems d have r2: "build_registry ents reg1 = Inl err" by simp
    from Cons.prems(2) have "\<forall>d \<in> set ents. distinct (map fst (reactionTable (snd d)))" by simp
    from Cons.IH [OF r2 this] obtain a where
      a: "err = DuplicateActionError a"
         "1 < length (declared_by ents a) \<or> (a \<in> dom reg1 \<and> declared_by ents a \<noteq> [])"
      by blast
    note A = register_actions_Inr [OF Inr]
    from a(2) A d have "1 < length (declared_by (d # ents) a) \<or>
        (a \<in> dom reg \<and> declared_by (d # ents) a \<noteq> [])"
      by (cases "declared_by ents a") (auto simp: declared_by_Cons)
    with a(1) show ?thesis by blast
  qed
qed

lemma build_registry_succeeds:
  "\<forall>d \<in> set ents. distinct (map fst (reactionTable (snd d))) \<Longrightarrow>
   \<forall>a. length (declared_by ents a) \<le> 1 \<Longrightarrow>
   \<forall>a \<in> dom reg. declared_by ents a = [] \<Longrightarrow>
   \<exists>reg'. build_registry ents reg = Inr reg'"
proof (cases "build_registry ents reg")
  case (Inl err)
  assume wf: "\<forall>d \<in> set ents. distinct (map fst (reactionTable (snd d)))"
    and u: "\<forall>a. length (declared_by ents a) \<le> 1"
    and f: "\<forall>a \<in> dom reg. declared_by ents a = []"
  from build_registry_Inl [OF Inl wf] obtain a where
    "1 < length (declared_by ents a) \<or> (a \<in> dom reg \<and> declared_by ents a \<noteq> [])" by blast
  with u f have False by (metis not_le)
  then show ?thesis ..
next
  case (Inr reg')
  then show ?thesis by blast
qed

subsection \<open>Operations keep the registry and the entities\<close>

lemma publish_fst: "fst (publish st e ent s') = st\<lparr>entities := (entities st)(e \<mapsto> ent\<lparr>state := s'\<rparr>)\<rparr>"
  by (simp add: publish_def Let_def)

lemma publish_snd:
  "snd (publish st e ent s') =
     Replaced e s' # notify (st\<lparr>entities := (entities st)(e \<mapsto> ent\<lparr>state := s'\<rparr>)\<rparr>) e"
  by (simp add: publish_def Let_def)

lemma complete_pending:
  assumes "pending st h = Some (e, completion)" and "entities st e = Some cur"
    and "completion (state cur) r = Some s2"
  shows "complete st h r =
           (st\<lparr>pending := (pending st)(h := None),
               entities := (entities st)(e \<mapsto> cur\<lparr>state := s2\<rparr>)\<rparr>,
            CompleteInvoked h r # Replaced e s2 #
              notify (st\<lparr>pending := (pending st)(h := None),
                         entities := (entities st)(e \<mapsto> cur\<lparr>state := s2\<rparr>)\<rparr>) e,
            None)"
  using assms by (simp add: complete_def publish_def Let_def)

lemma complete_not_pending: "pending st h = None \<Longrightarrow> complete st h r = (st, [], None)"
  by (simp add: complete_def)

lemma complete_keeps:
  "actionRegistry (fst (complete st h r)) = actionRegistry st \<and>
   dom (entities (fst (complete st h r))) = dom (entities st)"
  by (auto simp: complete_def publish_def Let_def split: option.splits prod.splits)

lemma startup_step_keeps:
  assumes "startup_step st e ent startup p = Some (st1, evs1)" and "entities st e = Some ent"
  shows "actionRegistry st1 = actionRegistry st \<and> dom (entities st1) = dom (entities st)"
proof -
  have "insert e (dom (entities st)) = dom (entities st)" using assms(2) by auto
  with assms(1) show ?thesis
    by (auto simp: startup_step_def publish_def Let_def split: option.splits)
qed

lemma effect_step_keeps:
  "actionRegistry (fst (effect_step st a e effect completion p)) = actionRegistry st \<and>
   dom (entities (fst (effect_step st a e effect completion p))) = dom (entities st)"
proof (cases "effect p")
  case None
  then show ?thesis by (simp add: effect_step_def Let_def)
next
  case (Some r)
  let ?st' = "st\<lparr>pending := (pending st)(nextHandle st \<mapsto> (e, completion)),
                   nextHandle := Suc (nextHandle st)\<rparr>"
  have "fst (effect_step st a e effect completion p) = fst (complete ?st' (nextHandle st) r)"
    using Some by (simp add: effect_step_def Let_def case_prod_unfold)
  then show ?thesis using complete_keeps [of ?st' "nextHandle st" r] by simp
qed

lemma execute_keeps:
  assumes "entities st e = Some ent"
  shows "actionRegistry (fst (execute st a e ent rx p)) = actionRegistry st \<and>
         dom (entities (fst (execute st a e ent rx p))) = dom (entities st)"
proof (cases rx)
  case (Simple t)
  have "insert e (dom (entities st)) = dom (entities st)" using assms by auto
  with Simple show ?thesis
    by (cases "t (state ent) p") (simp_all add: execute_def publish_def Let_def)
next
  case (Async startup effect completion)
  show ?thesis
  proof (cases "startup_step st e ent startup p")
    case None
    with Async show ?thesis by (simp add: execute_def)
  next
    case (Some q)
    obtain st1 evs1 where q: "q = (st1, evs1)" by (cases q)
    have "fst (execute st a e ent rx p) = fst (effect_step st1 a e effect completion p)"
      using Async Some q by (simp add: execute_def case_prod_unfold Let_def)
    then show ?thesis
      using startup_step_keeps [OF Some [unfolded q] assms]
        effect_step_keeps [of st1 a e effect completion p]
      by simp
  qed
qed

lemma dispatch_keeps:
  "actionRegistry (fst (dispatch st a p)) = actionRegistry st \<and>
   dom (entities (fst (dispatch st a p))) = dom (entities st)"
proof (cases "actionRegistry st a")
  case None
  then show ?thesis by (simp add: dispatch_def)
next
  case (Some v)
  obtain e rx where v: "v = (e, rx)" by (cases v)
  show ?thesis
  proof (cases "entities st e")
    case None
    with Some v show ?thesis by (simp add: dispatch_def)
  next
    case ent: (Some ent)
    with Some v have "dispatch st a p = execute st a e ent rx p" by (simp add: dispatch_def)
    with execute_keeps [OF ent] show ?thesis by simp
  qed
qed

lemma construct_inv:
  assumes "construct ents = Inr st"
  shows "store_inv ents st"
proof -
  from assms obtain reg where reg: "build_registry ents Map.empty = Inr reg"
    and st: "st = \<lparr>entities = map_of ents, actionRegistry = reg, subscribers = [],
                    pending = Map.empty, nextHandle = 0\<rparr>"
    by (auto simp: construct_def split: sum.splits)
  have "dom (map_of ents) = fst ` set ents" by (rule dom_map_of_conv_image_fst)
  with reg st show ?thesis by (simp add: store_inv_def)
qed

lemma reachable_inv: "reachable ents st \<Longrightarrow> store_inv ents st"
proof (induction rule: reachable.induct)
  case (built st)
  then show ?case by (rule construct_inv)
next
  case (dispatched st a p)
  then show ?case by (simp add: store_inv_def dispatch_keeps)
next
  case (completed st h r)
  then show ?case by (simp add: store_inv_def complete_keeps)
next
  case (subscribed st c es acts)
  then show ?case by (simp add: store_inv_def subscribe_def Let_def)
next
  case (unsubscribed st c)
  then show ?case by (simp add: store_inv_def unsubscribe_def)
qed

lemma registered_entity_exists:
  assumes "store_inv ents st" and "actionRegistry st a = Some (e, rx)"
  shows "\<exists>ent. entities st e = Some ent"
proof -
  from assms(1) have b: "build_registry ents Map.empty = Inr (actionRegistry st)"
    and d: "dom (entities st) = fst ` set ents" by (simp_all add: store_inv_def)
  from build_registry_Inr [OF b] assms(2) obtain ent where "(e, ent) \<in> set ents"
    by fastforce
  then have "e \<in> dom (entities st)" using d by force
  then show ?thesis by blast
qed

lemma undeclared_unregistered:
  assumes "store_inv ents st" and "declared_by ents a = []"
  shows "actionRegistry st a = None"
proof -
  from assms(1) have b: "build_registry ents Map.empty = Inr (actionRegistry st)"
    by (simp add: store_inv_def)
  from build_registry_Inr [OF b] assms(2) have "a \<notin> dom (actionRegistry st)" by simp
  then show ?thesis by blast
qed

lemma subscribe_fst:
  "fst (subscribe st c es acts) =
     st\<lparr>subscribers := subscribers st @
          [\<lparr>componentIdentity = c, entityNames = es, actionNames = acts\<rparr>]\<rparr>"
  by (simp add: subscribe_def Let_def)

lemma counter_reachable: "reachable [(''counter'', counter)] counter_store"
  unfolding counter_store_def
  by (intro reachable.subscribed reachable.built)
     (simp add: construct_def counter_built_def counter_def)

lemma session_reachable: "reachable [(''session'', session)] session_store"
  unfolding session_store_def
  by (intro reachable.subscribed reachable.built)
     (simp add: construct_def session_built_def session_def)

lemma effect_step_deferred:
  "effect p = None \<Longrightarrow>
   effect_step st a e effect completion p =
     (st\<lparr>pending := (pending st)(nextHandle st \<mapsto> (e, completion)), nextHandle := Suc (nextHandle st)\<rparr>,
      [EffectInvoked a p (nextHandle st)], None)"
  by (simp add: effect_step_def Let_def)

lemma effect_step_immediate:
  "effect p = Some r \<Longrightarrow>
   effect_step st a e effect completion p =
     (fst (complete (st\<lparr>pending := (pending st)(nextHandle st \<mapsto> (e, completion)),
                        nextHandle := Suc (nextHandle st)\<rparr>) (nextHandle st) r),
      EffectInvoked a p (nextHandle st) #
        fst (snd (complete (st\<lparr>pending := (pending st)(nextHandle st \<mapsto> (e, completion)),
                        nextHandle := Suc (nextHandle st)\<rparr>) (nextHandle st) r)),
      snd (snd (complete (st\<lparr>pending := (pending st)(nextHandle st \<mapsto> (e, completion)),
                        nextHandle := Suc (nextHandle st)\<rparr>) (nextHandle st) r)))"
  by (simp add: effect_step_def Let_def case_prod_unfold)

lemma execute_async_started:
  assumes "startup (state ent) p = Some s1"
  shows "execute st a e ent (Async (Some startup) effect completion) p =
     (fst (effect_step (st\<lparr>entities := (entities st)(e \<mapsto> ent\<lparr>state := s1\<rparr>)\<rparr>) a e effect completion p),
      Replaced e s1 # notify (st\<lparr>entities := (entities st)(e \<mapsto> ent\<lparr>state := s1\<rparr>)\<rparr>) e @
        fst (snd (effect_step (st\<lparr>entities := (entities st)(e \<mapsto> ent\<lparr>state := s1\<rparr>)\<rparr>) a e effect completion p)),
      snd (snd (effect_step (st\<lparr>entities := (entities st)(e \<mapsto> ent\<lparr>state := s1\<rparr>)\<rparr>) a e effect completion p)))"
  using assms by (simp add: execute_def startup_step_def publish_def Let_def case_prod_unfold)

subsection \<open>Construction\<close>

text \<open>
  Claim C3. Given entities whose own reaction tables name each action once (as the keys
  of an object do): when no action name is declared by two entities, construction
  succeeds; when some action name is declared by two entities, construction fails with
  \<open>DuplicateActionError a\<close> for an action name \<open>a\<close> that two entities declare.
\<close>

theorem construct_checks_action_names:
  assumes "\<forall>d \<in> set ents. distinct (map fst (reactionTable (snd d)))"
  shows "((\<forall>a. length (declared_by ents a) \<le> 1) \<longrightarrow> (\<exists>st. construct ents = Inr st)) \<and>
         ((\<exists>a. 1 < length (declared_by ents a)) \<longrightarrow>
            (\<exists>a. construct ents = Inl (DuplicateActionError a) \<and> 1 < length (declared_by ents a)))"
proof (intro conjI impI)
  assume "\<forall>a. length (declared_by ents a) \<le> 1"
  with build_registry_succeeds [OF assms, of Map.empty]
  obtain reg where "build_registry ents Map.empty = Inr reg" by auto
  then show "\<exists>st. construct ents = Inr st" by (simp add: construct_def)
next
  assume dup: "\<exists>a. 1 < length (declared_by ents a)"
  show "\<exists>a. construct ents = Inl (DuplicateActionError a) \<and> 1 < length (declared_by ents a)"
  proof (cases "build_registry ents Map.empty")
    case (Inl err)
    from build_registry_Inl [OF Inl assms] obtain a where
      "err = DuplicateActionError a" "1 < length (declared_by ents a)" by auto
    with Inl show ?thesis by (auto simp: construct_def)
  next
    case (Inr reg)
    from build_registry_Inr [OF Inr] dup have False by (metis not_le)
    then show ?thesis ..
  qed
qed

text \<open>
  Scenario A's entities construct the store; Scenario C's two entities that both declare
  \<^verbatim>\<open>save\<close> fail with that name.
\<close>

theorem construct_checks_action_names_witness:
  "construct [(''counter'', counter)] = Inr counter_built \<and>
   construct [(''drafts'', saver), (''posts'', saver)] = Inl (DuplicateActionError ''save'')"
  using construct_checks_action_names [of "[(''counter'', counter)]"]
    construct_checks_action_names [of "[(''drafts'', saver), (''posts'', saver)]"]
  by (simp add: construct_def counter_def saver_def counter_built_def)

subsection \<open>Dispatch\<close>

text \<open>
  Claim C1. In a store built from entities (and in every store reached from it), an
  action registered to entity \<open>e\<close> with a \<open>Simple\<close> reaction has its entity in the
  store, and a dispatch whose transition returns \<open>s'\<close> from the old state and the payload
  gives: the store with the state of \<open>e\<close> replaced by \<open>s'\<close> and nothing else changed;
  one \<open>Replaced\<close> event, followed by one \<open>Updated\<close> event for each subscriber of \<open>e\<close>
  and none for the others; no failure.
\<close>

theorem simple_dispatch_one_replacement:
  assumes "reachable ents st" and "actionRegistry st a = Some (e, Simple transition)"
  shows "\<exists>ent. entities st e = Some ent \<and>
           (\<forall>s'. transition (state ent) p = Some s' \<longrightarrow>
              dispatch st a p =
                (st\<lparr>entities := (entities st)(e \<mapsto> ent\<lparr>state := s'\<rparr>)\<rparr>,
                 Replaced e s' #
                   map (\<lambda>sub. Updated (componentIdentity sub)
                                (inject (st\<lparr>entities := (entities st)(e \<mapsto> ent\<lparr>state := s'\<rparr>)\<rparr>) sub))
                     (filter (\<lambda>sub. e \<in> set (entityNames sub)) (subscribers st)),
                 None))"
proof -
  from registered_entity_exists [OF reachable_inv [OF assms(1)] assms(2)]
  obtain ent where ent: "entities st e = Some ent" by blast
  have "dispatch st a p =
          (st\<lparr>entities := (entities st)(e \<mapsto> ent\<lparr>state := s'\<rparr>)\<rparr>,
           Replaced e s' #
             map (\<lambda>sub. Updated (componentIdentity sub)
                          (inject (st\<lparr>entities := (entities st)(e \<mapsto> ent\<lparr>state := s'\<rparr>)\<rparr>) sub))
               (filter (\<lambda>sub. e \<in> set (entityNames sub)) (subscribers st)),
           None)"
    if "transition (state ent) p = Some s'" for s'
    using that ent assms(2) by (simp add: dispatch_def execute_def publish_def notify_def Let_def)
  with ent show ?thesis by blast
qed

text \<open>Scenario A: one \<^verbatim>\<open>increment\<close> of the counter, observed by component 7.\<close>

theorem simple_dispatch_one_replacement_witness:
  "reachable [(''counter'', counter)] counter_store \<and>
   getState (fst (dispatch counter_store ''increment'' ())) ''counter'' = Inr 1 \<and>
   fst (snd (dispatch counter_store ''increment'' ())) =
     [Replaced ''counter'' 1,
      Updated 7 [(''counter'', StateProp 1), (''increment'', BoundAction ''increment'')]] \<and>
   snd (snd (dispatch counter_store ''increment'' ())) = None"
proof -
  have reg: "actionRegistry counter_store ''increment'' =
      Some (''counter'', Simple (\<lambda>s p. Some (s + 1)))"
    by (simp add: counter_store_def counter_built_def subscribe_fst)
  from simple_dispatch_one_replacement [OF counter_reachable reg, of "()"] counter_reachable
  show ?thesis
    by (auto simp: counter_store_def counter_built_def subscribe_fst counter_def getState_def inject_def)
qed

text \<open>
  Claim C2. In a reachable store, dispatching an action registered to \<open>e\<close> with a 3-step
  \<open>Async\<close> reaction whose startup returns \<open>s1\<close>: the events start with the replacement
  by \<open>s1\<close> and the notifications of the subscribers of \<open>e\<close>, and only then comes
  \<open>EffectInvoked\<close>. When the effect returns without invoking its continuation, the
  dispatch ends there, with the handle pending and no completion run. When the effect
  invokes the continuation with \<open>r\<close>, what follows \<open>EffectInvoked\<close> is what
  \<open>complete\<close> does. Invoking a pending handle with \<open>r\<close> publishes
  \<open>completion(currentState, r)\<close>: \<open>CompleteInvoked\<close> first, then the replacement and the
  notifications; invoking a handle that is not pending does nothing.
\<close>

theorem async_dispatch_order:
  assumes "reachable ents st"
    and "actionRegistry st a = Some (e, Async (Some startup) effect completion)"
  shows "\<exists>ent. entities st e = Some ent \<and>
     (\<forall>s1. startup (state ent) p = Some s1 \<longrightarrow>
        (let started = st\<lparr>entities := (entities st)(e \<mapsto> ent\<lparr>state := s1\<rparr>)\<rparr>;
             h = nextHandle st;
             waiting = started\<lparr>pending := (pending st)(h \<mapsto> (e, completion)), nextHandle := Suc h\<rparr>
         in (effect p = None \<longrightarrow>
               dispatch st a p =
                 (waiting, Replaced e s1 # notify started e @ [EffectInvoked a p h], None))
          \<and> (\<forall>r. effect p = Some r \<longrightarrow>
               dispatch st a p =
                 (fst (complete waiting h r),
                  Replaced e s1 # notify started e @ EffectInvoked a p h #
                    fst (snd (complete waiting h r)),
                  snd (snd (complete waiting h r))))
          \<and> pending waiting h = Some (e, completion)
          \<and> (\<forall>st' r cur s2.
                pending st' h = Some (e, completion) \<and> entities st' e = Some cur \<and>
                completion (state cur) r = Some s2 \<longrightarrow>
                complete st' h r =
                  (st'\<lparr>pending := (pending st')(h := None),
                       entities := (entities st')(e \<mapsto> cur\<lparr>state := s2\<rparr>)\<rparr>,
                   CompleteInvoked h r # Replaced e s2 #
                     notify (st'\<lparr>pending := (pending st')(h := None),
                                 entities := (entities st')(e \<mapsto> cur\<lparr>state := s2\<rparr>)\<rparr>) e,
                   None))
          \<and> (\<forall>st' r. pending st' h = None \<longrightarrow> complete st' h r = (st', [], None))))"
proof -
  from registered_entity_exists [OF reachable_inv [OF assms(1)] assms(2)]
  obtain ent where ent: "entities st e = Some ent" by blast
  have d: "dispatch st a p = execute st a e ent (Async (Some startup) effect completion) p"
    using ent assms(2) by (simp add: dispatch_def)
  have "let started = st\<lparr>entities := (entities st)(e \<mapsto> ent\<lparr>state := s1\<rparr>)\<rparr>;
             h = nextHandle st;
             waiting = started\<lparr>pending := (pending st)(h \<mapsto> (e, completion)), nextHandle := Suc h\<rparr>
         in (effect p = None \<longrightarrow>
               dispatch st a p =
                 (waiting, Replaced e s1 # notify started e @ [EffectInvoked a p h], None))
          \<and> (\<forall>r. effect p = Some r \<longrightarrow>
               dispatch st a p =
                 (fst (complete waiting h r),
                  Replaced e s1 # notify started e @ EffectInvoked a p h #
                    fst (snd (complete waiting h r)),
                  snd (snd (complete waiting h r))))
          \<and> pending waiting h = Some (e, completion)
          \<and> (\<forall>st' r cur s2.
                pending st' h = Some (e, completion) \<and> entities st' e = Some cur \<and>
                completion (state cur) r = Some s2 \<longrightarrow>
                complete st' h r =
                  (st'\<lparr>pending := (pending st')(h := None),
                       entities := (entities st')(e \<mapsto> cur\<lparr>state := s2\<rparr>)\<rparr>,
                   CompleteInvoked h r # Replaced e s2 #
                     notify (st'\<lparr>pending := (pending st')(h := None),
                                 entities := (entities st')(e \<mapsto> cur\<lparr>state := s2\<rparr>)\<rparr>) e,
                   None))
          \<and> (\<forall>st' r. pending st' h = None \<longrightarrow> complete st' h r = (st', [], None))"
    if s1: "startup (state ent) p = Some s1" for s1
    unfolding Let_def d
      execute_async_started [of startup ent p s1 st a e effect completion, OF s1]
    by (intro conjI allI impI)
       (simp_all add: effect_step_deferred effect_step_immediate complete_pending complete_not_pending)
  with ent show ?thesis by blast
qed

text \<open>
  Scenario B: the login of the session, observed by component 1. Two replacements and two
  notifications, the startup's before the effect and the completion's after
  \<open>CompleteInvoked\<close>.
\<close>

theorem async_dispatch_order_witness:
  "reachable [(''session'', session)] session_store \<and>
   fst (snd (dispatch session_store ''login'' ''secret'')) =
     [Replaced ''session'' \<lparr>auth = None, failed = False, busy = True\<rparr>,
      Updated 1 [(''session'', StateProp \<lparr>auth = None, failed = False, busy = True\<rparr>),
                 (''login'', BoundAction ''login'')],
      EffectInvoked ''login'' ''secret'' 0,
      CompleteInvoked 0 ''user-1'',
      Replaced ''session'' \<lparr>auth = Some ''user-1'', failed = False, busy = False\<rparr>,
      Updated 1 [(''session'', StateProp \<lparr>auth = Some ''user-1'', failed = False, busy = False\<rparr>),
                 (''login'', BoundAction ''login'')]] \<and>
   getState (fst (dispatch session_store ''login'' ''secret'')) ''session'' =
     Inr \<lparr>auth = Some ''user-1'', failed = False, busy = False\<rparr>"
proof -
  have reg: "actionRegistry session_store ''login'' =
      Some (''session'', Async (Some (\<lambda>s p. Some (s\<lparr>busy := True\<rparr>)))
                 (\<lambda>p. Some ''user-1'')
                 (\<lambda>s r. Some (s\<lparr>auth := Some r, busy := False\<rparr>)))"
    by (simp add: session_store_def session_built_def subscribe_fst login_def)
  from async_dispatch_order [OF session_reachable reg, of "''secret''"] session_reachable
  show ?thesis
    by (auto simp: session_store_def session_built_def subscribe_fst session_def getState_def
        inject_def notify_def complete_def publish_def Let_def)
qed

text \<open>
  Claim C4. Dispatching an action name that the registry does not hold fails with
  \<open>UnknownActionError\<close> of that name, causes no event and returns the store as it was,
  so that every entity reads as before. In a reachable store, a name that no entity
  declares is not in the registry.
\<close>

theorem unknown_action_rejected:
  "(actionRegistry st a = None \<longrightarrow>
      dispatch st a p = (st, [], Some (UnknownActionError a)) \<and>
      (\<forall>e. getState (fst (dispatch st a p)) e = getState st e)) \<and>
   (reachable ents st \<and> declared_by ents a = [] \<longrightarrow> actionRegistry st a = None)"
  using undeclared_unregistered [OF reachable_inv, of ents st a]
  by (simp add: dispatch_def)

text \<open>The counter has no action \<^verbatim>\<open>decrement\<close>.\<close>

theorem unknown_action_rejected_witness:
  "reachable [(''counter'', counter)] counter_store \<and>
   actionRegistry counter_store ''decrement'' = None \<and>
   declared_by [(''counter'', counter)] ''decrement'' = [] \<and>
   dispatch counter_store ''decrement'' () = (counter_store, [], Some (UnknownActionError ''decrement''))"
  using unknown_action_rejected [of counter_store "''decrement''" "()" "[(''counter'', counter)]"]
    counter_reachable
  by (simp add: counter_store_def counter_built_def subscribe_fst declared_by_def counter_def)

end
